theory Spec2Isabelle
  imports Main "HOL-Library.Sublist" "HOL-Library.AList"
begin

section \<open>Text primitives used by the content rewriter\<close>

text \<open>
  A Python \<open>str\<close> is a sequence of code points. The model holds text as \<open>string\<close>,
  one \<open>char\<close> per code point, so it covers text whose code points are below 256. In that
  range the regular-expression class \<open>\d\<close> is exactly the ten characters \<open>0\<close> to \<open>9\<close>.
\<close>

definition is_digit :: "char \<Rightarrow> bool" where
  "is_digit c = (48 \<le> (of_char c :: nat) \<and> (of_char c :: nat) \<le> 57)"

text \<open>
  \<open>s.replace(old, new)\<close> for a non-empty \<open>old\<close>: the occurrences of \<open>old\<close> are found from
  the left and do not overlap; the scan continues behind each occurrence.
\<close>

function py_replace_ne :: "string \<Rightarrow> string \<Rightarrow> string \<Rightarrow> string" where
  "py_replace_ne [] old new = []"
| "py_replace_ne (c # cs) old new =
     (if old \<noteq> [] \<and> prefix old (c # cs)
      then new @ py_replace_ne (drop (length old) (c # cs)) old new
      else c # py_replace_ne cs old new)"
  by pat_completeness auto
termination
  by (relation "measure (\<lambda>(s, old, new). length s)") auto

declare py_replace_ne.simps(2) [simp del]

text \<open>
  \<open>s.replace(old, new)\<close>. With an empty \<open>old\<close>, Python puts \<open>new\<close> in front of every
  character and at the end: \<open>"abc".replace("", "-") == "-a-b-c-"\<close>.
\<close>

definition py_replace :: "string \<Rightarrow> string \<Rightarrow> string \<Rightarrow> string" where
  "py_replace s old new =
     (if old = [] then new @ concat (map (\<lambda>c. c # new) s) else py_replace_ne s old new)"

text \<open>
  One attempt of the pattern \<open>\d{4,5}\<close> at the front of \<open>s\<close>: the quantifier is greedy, so
  it takes as many digits as there are, up to five. The attempt succeeds when it has taken
  at least four.
\<close>

definition match_digits :: "string \<Rightarrow> string" where
  "match_digits s = takeWhile is_digit (take 5 s)"

text \<open>
  \<open>re.findall(r"(\d{4,5})", line)\<close>: the matches from left to right, not overlapping.
  After a match the scan goes on behind it; where the pattern does not match, the scan
  moves one character on.
\<close>

function findall_ports :: "string \<Rightarrow> string list" where
  "findall_ports [] = []"
| "findall_ports (c # cs) =
     (if 4 \<le> length (match_digits (c # cs))
      then match_digits (c # cs)
           # findall_ports (drop (length (match_digits (c # cs))) (c # cs))
      else findall_ports cs)"
  by pat_completeness auto
termination
  by (relation "measure length") auto

definition digit_val :: "char \<Rightarrow> int" where
  "digit_val c = int (of_char c) - 48"

text \<open>\<open>int(port)\<close> on a string of digits; leading zeros are allowed.\<close>

definition py_int :: "string \<Rightarrow> int" where
  "py_int s = foldl (\<lambda>acc c. 10 * acc + digit_val c) 0 s"

definition digit_char :: "int \<Rightarrow> char" where
  "digit_char d = char_of (48 + d)"

text \<open>The decimal digits of a number that is not negative.\<close>

function str_digits :: "int \<Rightarrow> string" where
  "str_digits n =
     (if n < 10 then [digit_char n] else str_digits (n div 10) @ [digit_char (n mod 10)])"
  by pat_completeness auto
termination
  by (relation "measure nat") auto

declare str_digits.simps [simp del]

text \<open>\<open>str(new_port)\<close>: decimal digits, with a minus sign for a negative number.\<close>

definition py_str :: "int \<Rightarrow> string" where
  "py_str i = (if i < 0 then CHR ''-'' # str_digits (- i) else str_digits i)"

text \<open>
  \<open>file.lower()\<close>, character by character: in the range below 256 the letters with a
  lower-case form are \<open>A\<close> to \<open>Z\<close> and the accented capitals 192 to 222 except the
  multiplication sign 215; each moves up by 32.
\<close>

definition lower_char :: "char \<Rightarrow> char" where
  "lower_char c =
     (let n = (of_char c :: nat)
      in if (65 \<le> n \<and> n \<le> 90) \<or> (192 \<le> n \<and> n \<le> 222 \<and> n \<noteq> 215) then char_of (n + 32) else c)"

definition py_lower :: "string \<Rightarrow> string" where
  "py_lower s = map lower_char s"

definition endswith :: "string \<Rightarrow> string \<Rightarrow> bool" where
  "endswith s suf = suffix suf s"

section \<open>The rewrite of one line and of one file's text\<close>

record env_rules =
  replace :: "(string \<times> string) list"
  port_offset :: int

text \<open>
  The field \<open>replace\<close> is the list \<open>env_rules["replace"].items()\<close> in the dictionary's
  iteration order. The inner loop of lines 54 and 55 rebinds \<open>line\<close> at each pair.
\<close>

fun substitute :: "(string \<times> string) list \<Rightarrow> string \<Rightarrow> string" where
  "substitute [] line = line"
| "substitute ((old, new) # rest) line = substitute rest (py_replace line old new)"

text \<open>
  The loop of lines 59 to 63 over the list \<open>ports\<close>, which was computed once, before
  the loop; every replacement acts on the whole current line.
\<close>

fun adjust_ports :: "int \<Rightarrow> string list \<Rightarrow> string \<Rightarrow> string" where
  "adjust_ports off [] line = line"
| "adjust_ports off (port # ports) line =
     (let port_int = py_int port
      in if 4000 \<le> port_int \<and> port_int \<le> 6000
         then adjust_ports off ports (py_replace line port (py_str (port_int + off)))
         else adjust_ports off ports line)"

definition rewrite_line :: "env_rules \<Rightarrow> string \<Rightarrow> string" where
  "rewrite_line rules line =
     (let line1 = substitute (replace rules) line
      in adjust_ports (port_offset rules) (findall_ports line1) line1)"

text \<open>
  \<open>f.readlines()\<close>: the text is cut behind every line feed, and each line keeps its line
  feed; a last line without one is kept as it is. The text of a file is held the way
  text-mode reading delivers it and text-mode writing receives it.
\<close>

fun split_lines :: "string \<Rightarrow> string \<Rightarrow> string list" where
  "split_lines cur [] = (if cur = [] then [] else [cur])"
| "split_lines cur (c # cs) =
     (if c = CHR 0x0A then (cur @ [c]) # split_lines [] cs else split_lines (cur @ [c]) cs)"

definition readlines :: "string \<Rightarrow> string list" where
  "readlines s = split_lines [] s"

text \<open>The body of \<open>modify_ports_and_paths\<close> on the text: \<open>writelines\<close> concatenates.\<close>

definition rewrite_text :: "env_rules \<Rightarrow> string \<Rightarrow> string" where
  "rewrite_text rules s = concat (map (rewrite_line rules) (readlines s))"

section \<open>Digit runs\<close>

text \<open>The maximal runs of consecutive digits of a line, from left to right.\<close>

function digit_runs :: "string \<Rightarrow> string list" where
  "digit_runs [] = []"
| "digit_runs (c # cs) =
     (if is_digit c
      then takeWhile is_digit (c # cs) # digit_runs (dropWhile is_digit (c # cs))
      else digit_runs cs)"
  by pat_completeness auto
termination
  by (relation "measure length") (auto simp: le_imp_less_Suc length_dropWhile_le)


text \<open>
  The candidates as the specification words them: the maximal digit runs that are four or
  five digits long.
\<close>

definition maximal_runs_4_5 :: "string \<Rightarrow> string list" where
  "maximal_runs_4_5 line = filter (\<lambda>r. length r = 4 \<or> length r = 5) (digit_runs line)"

text \<open>
  What the greedy, non-overlapping scan takes out of one digit run: pieces of five digits
  from the left, then a piece of four when exactly four digits remain.
\<close>

function chunks45 :: "string \<Rightarrow> string list" where
  "chunks45 r =
     (if 5 \<le> length r then take 5 r # chunks45 (drop 5 r)
      else if length r = 4 then [r] else [])"
  by pat_completeness auto
termination
  by (relation "measure length") auto

declare chunks45.simps [simp del]

section \<open>The file system, the console and the errors\<close>

text \<open>
  The tree is a POSIX file system. A file holds either text that
  \<open>open(..., encoding="utf-8")\<close> can decode (held decoded) or bytes that it cannot. A
  directory holds its entries in listing order. \<open>Broken\<close> is a symbolic link whose target
  does not exist: its directory lists it, and every call that follows links finds nothing
  there. Symbolic links that resolve and permissions are not part of the model. Every node
  carries the timestamp that \<open>os.path.getctime\<close> reports for it, which on POSIX is the time
  of the last change of the node: of its content for a file, of its list of entries for a
  directory.
\<close>

datatype fdata = Text string | Binary string

datatype node = File int fdata | Dir int "(string \<times> node) list" | Broken int

type_synonym path = "string list"

text \<open>
  \<open>ShutilError\<close> is \<open>shutil.Error\<close>, which \<open>shutil.copytree\<close> raises at its end when
  entries could not be copied. \<open>CopyIntoItself\<close> stands for the way a copy ends whose
  destination lies in a subdirectory of its source (see \<open>copytree\<close> below).
\<close>

datatype error =
    FileNotFoundError | NotADirectoryError | IsADirectoryError | FileExistsError
  | UnicodeDecodeError | ValueError | ShutilError | CopyIntoItself

text \<open>The lines that the program prints, one constructor for each \<open>print\<close> call.\<close>

datatype message =
    Banner
  | InvalidEnvironment
  | FoundServers nat
  | Processing string
  | PathNotFound path
  | VersionExists string path
  | Copied string string
  | Updated string string
  | AllProcessed

record world =
  tree :: node
  clock :: int
  out :: "message list"

record server =
  name :: string
  path :: path

definition print :: "world \<Rightarrow> message \<Rightarrow> world" where
  "print w m = w\<lparr>out := out w @ [m]\<rparr>"

text \<open>
  A path is the list of the names that lead from the root of the tree to an entry.
  \<open>lookup\<close> finds the entry itself, \<open>stat\<close> what the entry resolves to.
\<close>

fun lookup :: "node \<Rightarrow> path \<Rightarrow> node option" where
  "lookup n [] = Some n"
| "lookup (File t d) (x # p) = None"
| "lookup (Broken t) (x # p) = None"
| "lookup (Dir t es) (x # p) = (case map_of es x of None \<Rightarrow> None | Some c \<Rightarrow> lookup c p)"

definition stat :: "node \<Rightarrow> path \<Rightarrow> node option" where
  "stat fs p = (case lookup fs p of Some (Broken t) \<Rightarrow> None | r \<Rightarrow> r)"

primrec update_at :: "path \<Rightarrow> (node \<Rightarrow> node) \<Rightarrow> node \<Rightarrow> node" where
  "update_at [] f n = f n"
| "update_at (x # p) f n =
     (case n of Dir t es \<Rightarrow> Dir t (AList.map_entry x (update_at p f) es) | _ \<Rightarrow> n)"

definition path_exists :: "node \<Rightarrow> path \<Rightarrow> bool" where
  "path_exists fs p = (stat fs p \<noteq> None)"

definition isdir :: "node \<Rightarrow> path \<Rightarrow> bool" where
  "isdir fs p = (case stat fs p of Some (Dir t es) \<Rightarrow> True | _ \<Rightarrow> False)"

definition listdir :: "node \<Rightarrow> path \<Rightarrow> error + string list" where
  "listdir fs p =
     (case stat fs p of
        Some (Dir t es) \<Rightarrow> Inr (map fst es)
      | Some (File t d) \<Rightarrow> Inl NotADirectoryError
      | _ \<Rightarrow> Inl FileNotFoundError)"

primrec ctime :: "node \<Rightarrow> int" where
  "ctime (File t d) = t"
| "ctime (Dir t es) = t"
| "ctime (Broken t) = t"

definition getctime :: "node \<Rightarrow> path \<Rightarrow> error + int" where
  "getctime fs p = (case stat fs p of None \<Rightarrow> Inl FileNotFoundError | Some n \<Rightarrow> Inr (ctime n))"

definition dirname :: "path \<Rightarrow> path" where
  "dirname p = butlast p"

definition basename :: "path \<Rightarrow> string" where
  "basename p = (if p = [] then [] else last p)"

subsection \<open>Joining a directory and a typed name\<close>

text \<open>
  \<open>os.path.join(a, b)\<close> joins text, and \<open>b\<close> is typed by the user: it may be empty,
  hold separators, or be \<open>.\<close> or \<open>..\<close>. The joined path is held as the directory from
  which the system resolves it and the components it resolves from there: those are the
  pieces of \<open>b\<close> between its separators, and the directory is the root of the tree when
  \<open>b\<close> starts with a separator and \<open>a\<close> otherwise.
\<close>

fun split_sep :: "string \<Rightarrow> string \<Rightarrow> string list" where
  "split_sep cur [] = [cur]"
| "split_sep cur (c # cs) =
     (if c = CHR ''/'' then cur # split_sep [] cs else split_sep (cur @ [c]) cs)"

definition components :: "string \<Rightarrow> string list" where
  "components s = split_sep [] s"

definition join :: "path \<Rightarrow> string \<Rightarrow> path \<times> string list" where
  "join a b = (if b \<noteq> [] \<and> hd b = CHR ''/'' then ([], components b) else (a, components b))"

text \<open>
  Path resolution from the directory \<open>cur\<close>: a component is taken inside a directory
  only; an empty component and \<open>.\<close> stay there, \<open>..\<close> steps to the parent (the root is
  its own parent), a name steps to the entry of that name. The result is the path of the
  entry reached.
\<close>

fun resolve :: "node \<Rightarrow> path \<Rightarrow> string list \<Rightarrow> error + path" where
  "resolve fs cur [] = Inr cur"
| "resolve fs cur (x # rest) =
     (case stat fs cur of
        Some (Dir t es) \<Rightarrow>
          if x = [] \<or> x = ''.'' then resolve fs cur rest
          else if x = ''..'' then resolve fs (butlast cur) rest
          else if map_of es x = None then Inl FileNotFoundError
          else resolve fs (cur @ [x]) rest
      | Some (File t d) \<Rightarrow> Inl NotADirectoryError
      | _ \<Rightarrow> Inl FileNotFoundError)"

text \<open>\<open>os.path.exists\<close> of a joined path: every failure to resolve it is \<open>False\<close>.\<close>

definition exists_joined :: "node \<Rightarrow> path \<Rightarrow> string list \<Rightarrow> bool" where
  "exists_joined fs base comps =
     (case resolve fs base comps of Inl e \<Rightarrow> False | Inr p \<Rightarrow> path_exists fs p)"

text \<open>The names that an entry of a directory can have.\<close>

definition plain_name :: "string \<Rightarrow> bool" where
  "plain_name s = (s \<noteq> [] \<and> s \<noteq> ''.'' \<and> s \<noteq> ''..'' \<and> CHR ''/'' \<notin> set s)"

section \<open>Configuration loader\<close>

text \<open>
  A configuration file is \<open>None\<close> when it is absent and otherwise holds its parsed content,
  typed as the program uses it.
\<close>

definition load_json :: "'a option \<Rightarrow> error + 'a" where
  "load_json file = (case file of None \<Rightarrow> Inl FileNotFoundError | Some v \<Rightarrow> Inr v)"

section \<open>Version resolver\<close>

text \<open>
  \<open>max(xs, key=k)\<close>: the key of every element is computed once, and an element replaces
  the best one so far only when its key is strictly greater, so the first maximum wins.
\<close>

fun py_max_from :: "('a \<Rightarrow> error + int) \<Rightarrow> 'a \<Rightarrow> int \<Rightarrow> 'a list \<Rightarrow> error + 'a" where
  "py_max_from key best bk [] = Inr best"
| "py_max_from key best bk (x # xs) =
     (case key x of
        Inl e \<Rightarrow> Inl e
      | Inr k \<Rightarrow> if bk < k then py_max_from key x k xs else py_max_from key best bk xs)"

definition py_max :: "('a \<Rightarrow> error + int) \<Rightarrow> 'a list \<Rightarrow> error + 'a" where
  "py_max key xs =
     (case xs of
        [] \<Rightarrow> Inl ValueError
      | x # rest \<Rightarrow> (case key x of Inl e \<Rightarrow> Inl e | Inr k \<Rightarrow> py_max_from key x k rest))"

definition get_latest_version_path :: "node \<Rightarrow> path \<Rightarrow> error + path" where
  "get_latest_version_path fs server_path =
     (case listdir fs server_path of
        Inl e \<Rightarrow> Inl e
      | Inr names \<Rightarrow>
          (let subdirs = map (\<lambda>d. server_path @ [d])
                           (filter (\<lambda>d. isdir fs (server_path @ [d])) names)
           in if subdirs = [] then Inl FileNotFoundError else py_max (getctime fs) subdirs))"

definition version_exists :: "node \<Rightarrow> path \<Rightarrow> string \<Rightarrow> bool" where
  "version_exists fs server_path version =
     (case join server_path version of (base, comps) \<Rightarrow> exists_joined fs base comps)"

section \<open>Version cloner\<close>

text \<open>
  \<open>os.mkdir\<close> of a joined path. Separators at its end do not count. The directory that
  receives the new one must resolve; the last component must be a name that this
  directory does not list yet, whatever the entry of that name is. The new directory and
  the directory that receives it carry the time of the call.
\<close>

definition strip_sep :: "string list \<Rightarrow> string list" where
  "strip_sep comps = rev (dropWhile (\<lambda>x. x = []) (rev comps))"

definition add_entry :: "int \<Rightarrow> string \<Rightarrow> node \<Rightarrow> node \<Rightarrow> node" where
  "add_entry now k c n = (case n of Dir t es \<Rightarrow> Dir now (es @ [(k, c)]) | _ \<Rightarrow> n)"

definition mkdir :: "node \<Rightarrow> int \<Rightarrow> path \<Rightarrow> string list \<Rightarrow> node \<times> error option" where
  "mkdir fs now base comps =
     (if strip_sep comps = []
      then (fs, Some (if path_exists fs base then FileExistsError else FileNotFoundError))
      else (case resolve fs base (butlast (strip_sep comps)) of
              Inl e \<Rightarrow> (fs, Some e)
            | Inr parent \<Rightarrow>
                (case stat fs parent of
                   Some (Dir t es) \<Rightarrow>
                     if last (strip_sep comps) = ''.'' \<or> last (strip_sep comps) = ''..''
                        \<or> map_of es (last (strip_sep comps)) \<noteq> None
                     then (fs, Some FileExistsError)
                     else (update_at parent
                             (add_entry now (last (strip_sep comps)) (Dir now [])) fs, None)
                 | Some (File t d) \<Rightarrow> (fs, Some NotADirectoryError)
                 | _ \<Rightarrow> (fs, Some FileNotFoundError))))"

text \<open>
  \<open>os.makedirs(name)\<close>, as \<open>shutil.copytree\<close> calls it: when the path without its last
  component does not exist it is made first, and \<open>FileExistsError\<close> from that is passed
  over; a last component \<open>.\<close> then needs nothing more; otherwise the directory is made
  with \<open>os.mkdir\<close>, whose error is raised. What was made before an error stays.
\<close>

function makedirs :: "node \<Rightarrow> int \<Rightarrow> path \<Rightarrow> string list \<Rightarrow> node \<times> error option" where
  "makedirs fs now base comps =
     (if strip_sep comps = [] \<or> exists_joined fs base (butlast (strip_sep comps))
      then mkdir fs now base comps
      else (case makedirs fs now base (butlast (strip_sep comps)) of
              (fs1, Some e) \<Rightarrow>
                if e \<noteq> FileExistsError then (fs1, Some e)
                else if last (strip_sep comps) = ''.'' then (fs1, None)
                else mkdir fs1 now base comps
            | (fs1, None) \<Rightarrow>
                if last (strip_sep comps) = ''.'' then (fs1, None)
                else mkdir fs1 now base comps))"
  by pat_completeness auto
termination
proof (relation "measure (\<lambda>(fs, now, base, comps). length comps)")
  show "wf (measure (\<lambda>(fs, now, base, comps). length comps))" by simp
next
  fix fs :: node and now :: int and base :: path and comps :: "string list"
  assume a: "\<not> (strip_sep comps = [] \<or> exists_joined fs base (butlast (strip_sep comps)))"
  have "length (strip_sep comps) \<le> length comps"
    by (simp add: strip_sep_def) (metis length_dropWhile_le length_rev)
  moreover have "length (butlast (strip_sep comps)) < length (strip_sep comps)"
    using a by (simp add: less_Suc_eq_le)
  ultimately show "((fs, now, base, butlast (strip_sep comps)), (fs, now, base, comps))
                     \<in> measure (\<lambda>(fs, now, base, comps). length comps)"
    by simp
qed

declare makedirs.simps [simp del]

text \<open>
  What a copy makes of a directory: files and directories are new and carry the time of
  the copy; an entry that is a dangling link cannot be read and is left out.
\<close>

primrec is_broken :: "node \<Rightarrow> bool" where
  "is_broken (File t d) = False"
| "is_broken (Dir t es) = False"
| "is_broken (Broken t) = True"

primrec is_dir_node :: "node \<Rightarrow> bool" where
  "is_dir_node (File t d) = False"
| "is_dir_node (Dir t es) = True"
| "is_dir_node (Broken t) = False"

fun stamp :: "int \<Rightarrow> node \<Rightarrow> node" where
  "stamp now (File t d) = File now d"
| "stamp now (Broken t) = Broken now"
| "stamp now (Dir t es) =
     Dir now (map (\<lambda>e. (fst e, stamp now (snd e))) (filter (\<lambda>e. \<not> is_broken (snd e)) es))"

fun has_broken :: "node \<Rightarrow> bool" where
  "has_broken (File t d) = False"
| "has_broken (Broken t) = True"
| "has_broken (Dir t es) = list_ex (\<lambda>e. has_broken (snd e)) es"

text \<open>
  \<open>shutil.copytree(src, dst)\<close>, with \<open>dst\<close> a joined path. It lists \<open>src\<close>, which fails
  when \<open>src\<close> is missing or not a directory; it makes \<open>dst\<close> with \<open>os.makedirs\<close>; it
  copies the entries it has listed, subdirectories with all they hold, and goes on after
  an entry that cannot be copied; at its end it raises \<open>shutil.Error\<close> when an entry could
  not be copied or \<open>dst\<close> cannot be reached, and returns \<open>dst\<close> otherwise.

  When \<open>dst\<close> lies in a subdirectory of \<open>src\<close> that was there before, the copy of that
  subdirectory finds \<open>dst\<close> in it and copies it into itself, level after level, until
  the interpreter or the system stops it with an exception. The model ends such a copy
  with \<open>CopyIntoItself\<close> and does not hold the levels written until then.
\<close>

definition copytree ::
  "node \<Rightarrow> int \<Rightarrow> path \<Rightarrow> path \<Rightarrow> string list \<Rightarrow> node \<times> (error + path)" where
  "copytree fs now src base comps =
     (case stat fs src of
        Some (Dir t es) \<Rightarrow>
          (case makedirs fs now base comps of
             (fs1, Some e) \<Rightarrow> (fs1, Inl e)
           | (fs1, None) \<Rightarrow>
               (case resolve fs1 base comps of
                  Inl e \<Rightarrow> (fs1, Inl ShutilError)
                | Inr dst \<Rightarrow>
                    if list_ex (\<lambda>e. is_dir_node (snd e) \<and> prefix (src @ [fst e]) dst) es
                    then (fs1, Inl CopyIntoItself)
                    else (update_at dst (\<lambda>n. stamp now (Dir t es)) fs1,
                          if has_broken (Dir t es) then Inl ShutilError else Inr dst)))
      | Some (File t d) \<Rightarrow> (fs, Inl NotADirectoryError)
      | _ \<Rightarrow> (fs, Inl FileNotFoundError))"

text \<open>
  \<open>copy_version_folder\<close>. The value it returns is the text of the joined path; the model
  returns the directory that this text denotes once the copy is made.
\<close>

definition copy_version_folder :: "world \<Rightarrow> path \<Rightarrow> string \<Rightarrow> world \<times> (error + path)" where
  "copy_version_folder w source_path new_version =
     (let parent = dirname source_path;
          new_path = join parent new_version
      in case copytree (tree w) (clock w) source_path (fst new_path) (snd new_path) of
           (fs', Inl e) \<Rightarrow> (w\<lparr>tree := fs', clock := clock w + 1\<rparr>, Inl e)
         | (fs', Inr dst) \<Rightarrow>
             (print (w\<lparr>tree := fs', clock := clock w + 1\<rparr>)
                (Copied (basename source_path) new_version), Inr dst))"

section \<open>Content rewriter\<close>

text \<open>
  \<open>modify_ports_and_paths\<close>: reading fails on a missing file, on a dangling link, on a
  directory and on bytes that are not UTF-8; otherwise the file is written back with
  every line rewritten, at the time \<open>now\<close>.
\<close>

definition modify_ports_and_paths ::
  "node \<Rightarrow> int \<Rightarrow> path \<Rightarrow> env_rules \<Rightarrow> node \<times> error option" where
  "modify_ports_and_paths fs now file_path rules =
     (case lookup fs file_path of
        None \<Rightarrow> (fs, Some FileNotFoundError)
      | Some (Broken t) \<Rightarrow> (fs, Some FileNotFoundError)
      | Some (Dir t es) \<Rightarrow> (fs, Some IsADirectoryError)
      | Some (File t (Binary b)) \<Rightarrow> (fs, Some UnicodeDecodeError)
      | Some (File t (Text s)) \<Rightarrow>
          (update_at file_path (\<lambda>n. File now (Text (rewrite_text rules s))) fs, None))"

text \<open>
  \<open>os.walk(top)\<close>, top down: one triple (directory, names of its subdirectories, names
  of its other entries) for \<open>top\<close>, then the triples of each subdirectory in listing order.
  A \<open>top\<close> that is not a directory yields nothing. The walk is lazy in Python; the loop
  body only changes the text of files, which no later listing depends on.
\<close>

fun os_walk :: "path \<Rightarrow> node \<Rightarrow> (path \<times> string list \<times> string list) list" where
  "os_walk dir (File t d) = []"
| "os_walk dir (Broken t) = []"
| "os_walk dir (Dir t es) =
     (dir, map fst (filter (\<lambda>e. is_dir_node (snd e)) es),
           map fst (filter (\<lambda>e. \<not> is_dir_node (snd e)) es))
     # concat (map (\<lambda>e. os_walk (dir @ [fst e]) (snd e)) (filter (\<lambda>e. is_dir_node (snd e)) es))"

definition is_ini :: "string \<Rightarrow> bool" where
  "is_ini file = endswith (py_lower file) ''.ini''"

text \<open>The inner loop of \<open>update_environment_files\<close>, over the files of one directory.\<close>

fun update_files ::
  "node \<Rightarrow> int \<Rightarrow> env_rules \<Rightarrow> path \<Rightarrow> string list \<Rightarrow> node \<times> error option" where
  "update_files fs now rules dir [] = (fs, None)"
| "update_files fs now rules dir (file # files) =
     (if is_ini file
      then (case modify_ports_and_paths fs now (dir @ [file]) rules of
              (fs', Some e) \<Rightarrow> (fs', Some e)
            | (fs', None) \<Rightarrow> update_files fs' now rules dir files)
      else update_files fs now rules dir files)"

text \<open>The outer loop, over the triples of the walk.\<close>

fun update_walk ::
  "node \<Rightarrow> int \<Rightarrow> env_rules \<Rightarrow> (path \<times> string list \<times> string list) list
     \<Rightarrow> node \<times> error option" where
  "update_walk fs now rules [] = (fs, None)"
| "update_walk fs now rules ((dir, dirs, files) # rest) =
     (case update_files fs now rules dir files of
        (fs', Some e) \<Rightarrow> (fs', Some e)
      | (fs', None) \<Rightarrow> update_walk fs' now rules rest)"

definition update_environment_files ::
  "node \<Rightarrow> int \<Rightarrow> path \<Rightarrow> env_rules \<Rightarrow> node \<times> error option" where
  "update_environment_files fs now version_path rules =
     (case stat fs version_path of
        None \<Rightarrow> (fs, None)
      | Some n \<Rightarrow> update_walk fs now rules (os_walk version_path n))"

section \<open>Orchestrator\<close>

text \<open>
  The result of a step is the world it leaves and the exception it raised, if any.
  An exception ends the step at once; what was changed before stays changed. The clock
  advances with every step that writes.
\<close>

definition process_server :: "world \<Rightarrow> server \<Rightarrow> string \<Rightarrow> env_rules \<Rightarrow> world \<times> error option" where
  "process_server w srv new_version rules =
     (let w1 = print w (Processing (name srv));
          server_path = path srv
      in if \<not> path_exists (tree w1) server_path
         then (print w1 (PathNotFound server_path), None)
         else if version_exists (tree w1) server_path new_version
         then (print w1 (VersionExists new_version server_path), None)
         else (case get_latest_version_path (tree w1) server_path of
                 Inl e \<Rightarrow> (w1, Some e)
               | Inr latest_path \<Rightarrow>
                   (case copy_version_folder w1 latest_path new_version of
                      (w2, Inl e) \<Rightarrow> (w2, Some e)
                    | (w2, Inr new_version_path) \<Rightarrow>
                        (case update_environment_files (tree w2) (clock w2) new_version_path rules of
                           (fs', Some e) \<Rightarrow> (w2\<lparr>tree := fs', clock := clock w2 + 1\<rparr>, Some e)
                         | (fs', None) \<Rightarrow>
                             (print (w2\<lparr>tree := fs', clock := clock w2 + 1\<rparr>)
                                (Updated (name srv) new_version), None)))))"

text \<open>The loop of lines 113 and 114. Nothing in it catches an exception.\<close>

fun run_servers :: "world \<Rightarrow> server list \<Rightarrow> string \<Rightarrow> env_rules \<Rightarrow> world \<times> error option" where
  "run_servers w [] new_version rules = (w, None)"
| "run_servers w (srv # rest) new_version rules =
     (case process_server w srv new_version rules of
        (w', Some e) \<Rightarrow> (w', Some e)
      | (w', None) \<Rightarrow> run_servers w' rest new_version rules)"

text \<open>
  \<open>main\<close>. Its arguments \<open>new_version\<close> and \<open>environment\<close> are the values bound at lines
  100 and 101, that is the typed answers after \<open>strip()\<close> and \<open>strip().upper()\<close>. The two
  configuration files are given as \<open>load_json\<close> finds them.
\<close>

definition main ::
  "world \<Rightarrow> string \<Rightarrow> string \<Rightarrow> server list option \<Rightarrow> (string \<rightharpoonup> env_rules) option
     \<Rightarrow> world \<times> error option" where
  "main w new_version environment servers_file rules_file =
     (let w1 = print w Banner
      in case load_json servers_file of
           Inl e \<Rightarrow> (w1, Some e)
         | Inr servers \<Rightarrow>
             (case load_json rules_file of
                Inl e \<Rightarrow> (w1, Some e)
              | Inr env_rules_data \<Rightarrow>
                  (case env_rules_data environment of
                     None \<Rightarrow> (print w1 InvalidEnvironment, None)
                   | Some rules \<Rightarrow>
                       (let w2 = print w1 (FoundServers (length servers))
                        in case run_servers w2 servers new_version rules of
                             (w3, Some e) \<Rightarrow> (w3, Some e)
                           | (w3, None) \<Rightarrow> (print w3 AllProcessed, None)))))"

section \<open>What the content rewriter is to do\<close>

text \<open>
  The data of the file at a path, if the entry there is a file. A tree is well formed when
  no directory lists a name twice. A path is an INI file below the version folder when it
  goes through the folder and its last name ends in \<open>.ini\<close>, whatever the case of the
  letters. An entry cannot be read as text when it is a file that is not UTF-8 or a
  dangling link.
\<close>

definition file_at :: "node \<Rightarrow> path \<Rightarrow> fdata option" where
  "file_at fs p = (case lookup fs p of Some (File t d) \<Rightarrow> Some d | _ \<Rightarrow> None)"

fun wf_node :: "node \<Rightarrow> bool" where
  "wf_node (File t d) = True"
| "wf_node (Broken t) = True"
| "wf_node (Dir t es) = (distinct (map fst es) \<and> (\<forall>e\<in>set es. wf_node (snd e)))"

definition ini_under :: "path \<Rightarrow> path \<Rightarrow> bool" where
  "ini_under version_path q = (strict_prefix version_path q \<and> is_ini (last q))"

definition unreadable :: "node \<Rightarrow> path \<Rightarrow> bool" where
  "unreadable fs q =
     (case lookup fs q of
        Some (File t (Binary b)) \<Rightarrow> True
      | Some (Broken t) \<Rightarrow> True
      | _ \<Rightarrow> False)"

text \<open>
  The two loops of \<open>update_environment_files\<close> seen as one loop over the paths that they
  hand to \<open>modify_ports_and_paths\<close>, in the order of the walk.
\<close>

fun modify_all :: "node \<Rightarrow> int \<Rightarrow> env_rules \<Rightarrow> path list \<Rightarrow> node \<times> error option" where
  "modify_all fs now rules [] = (fs, None)"
| "modify_all fs now rules (p # ps) =
     (case modify_ports_and_paths fs now p rules of
        (fs', Some e) \<Rightarrow> (fs', Some e)
      | (fs', None) \<Rightarrow> modify_all fs' now rules ps)"

definition targets_of :: "(path \<times> string list \<times> string list) list \<Rightarrow> path list" where
  "targets_of walk =
     concat (map (\<lambda>(dir, dirs, files). map (\<lambda>f. dir @ [f]) (filter is_ini files)) walk)"

text \<open>A tree all of whose files are text and that holds no dangling link.\<close>

fun readable_tree :: "node \<Rightarrow> bool" where
  "readable_tree (File t (Text s)) = True"
| "readable_tree (File t (Binary b)) = False"
| "readable_tree (Broken t) = False"
| "readable_tree (Dir t es) = list_all (\<lambda>e. readable_tree (snd e)) es"

section \<open>A small installation used in the examples\<close>

text \<open>
  Server \<open>A\<close> has a root without any version folder; server \<open>B\<close> has the versions
  \<open>0.9\<close> and \<open>1.0\<close>, of which \<open>1.0\<close> is the younger; server \<open>C\<close> has the version
  \<open>1.0\<close> and an entry \<open>2.0\<close> that is a dangling link.
\<close>

definition example_tree :: node where
  "example_tree =
     Dir 0
       [(''a'', Dir 1 []),
        (''b'', Dir 2
           [(''1.0'', Dir 5
               [(''app.INI'', File 6 (Text ''port=4500\<newline>host=dev'')),
                (''notes.txt'', File 6 (Text ''port=4500'')),
                (''sub'', Dir 6 [(''c.ini'', File 7 (Text ''a=4000 b=6001''))])]),
            (''0.9'', Dir 3 [])]),
        (''c'', Dir 4
           [(''1.0'', Dir 4 [(''app.ini'', File 4 (Text ''port=4500''))]),
            (''2.0'', Broken 8)])]"

definition example_world :: world where
  "example_world = \<lparr>tree = example_tree, clock = 10, out = []\<rparr>"

definition example_rules :: env_rules where
  "example_rules = \<lparr>replace = [(''dev'', ''prod'')], port_offset = 100\<rparr>"

definition server_a :: server where
  "server_a = \<lparr>name = ''A'', path = [''a'']\<rparr>"

definition server_b :: server where
  "server_b = \<lparr>name = ''B'', path = [''b'']\<rparr>"

definition server_c :: server where
  "server_c = \<lparr>name = ''C'', path = [''c'']\<rparr>"

definition example_servers :: "server list" where
  "example_servers = [server_a, server_b]"

definition example_env_rules_data :: "string \<rightharpoonup> env_rules" where
  "example_env_rules_data = [''A'' \<mapsto> example_rules, ''B'' \<mapsto> example_rules]"

text \<open>A version folder whose first file with the INI extension is not UTF-8.\<close>

definition undecodable_tree :: node where
  "undecodable_tree =
     Dir 0
       [(''v'', Dir 1
           [(''bad.ini'', File 1 (Binary [CHR 0xFF])),
            (''sub'', Dir 1 [(''b.ini'', File 1 (Text ''port=4500''))])])]"

section \<open>Paths\<close>

lemma lookup_append:
  "lookup fs (p @ q) = (case lookup fs p of None \<Rightarrow> None | Some n \<Rightarrow> lookup n q)"
  by (induction fs p rule: lookup.induct) (auto split: option.splits)

lemma split_sep_plain: "CHR ''/'' \<notin> set s \<Longrightarrow> split_sep cur s = [cur @ s]"
  by (induction s arbitrary: cur) auto

lemma join_plain: "plain_name s \<Longrightarrow> join a s = (a, [s])"
proof -
  assume a: "plain_name s"
  then have "hd s \<noteq> CHR ''/''" by (cases s) (auto simp: plain_name_def)
  then show ?thesis using a by (simp add: join_def components_def split_sep_plain plain_name_def)
qed

section \<open>Orchestrator: exceptions and the loop over the servers\<close>

text \<open>
  Claim C1, as the code has it. The loop over the servers has no handler, so an exception
  raised while a server is processed leaves the loop: the run ends with that exception and
  with the world as the failing server left it, whatever servers follow in the list. The
  servers before it have been processed; those after it are not.
\<close>

theorem run_servers_stops_at_exception:
  assumes "run_servers w before nv rules = (w1, None)"
      and "process_server w1 srv nv rules = (w2, Some e)"
  shows "run_servers w (before @ srv # rest) nv rules = (w2, Some e)"
  using assms
proof (induction before arbitrary: w)
  case Nil
  then show ?case by simp
next
  case (Cons s ss)
  then show ?case by (auto split: prod.splits option.splits)
qed

theorem run_servers_stops_at_exception_witness:
  "run_servers example_world [] ''2.0'' example_rules = (example_world, None)
   \<and> process_server example_world server_a ''2.0'' example_rules
         = (print example_world (Processing ''A''), Some FileNotFoundError)
   \<and> run_servers example_world ([] @ server_a # [server_b]) ''2.0'' example_rules
         = (print example_world (Processing ''A''), Some FileNotFoundError)"
proof -
  have h1: "run_servers example_world [] ''2.0'' example_rules = (example_world, None)"
    by simp
  have h2: "process_server example_world server_a ''2.0'' example_rules
             = (print example_world (Processing ''A''), Some FileNotFoundError)"
    by code_simp
  show ?thesis
    using h1 h2 run_servers_stops_at_exception [OF h1 h2, of "[server_b]"] by blast
qed

text \<open>
  Claim C1 as stated fails: server \<open>A\<close> raises because its root has no version folder,
  the run ends with that exception, and server \<open>B\<close>, which comes next, never gets its
  version \<open>2.0\<close>, although a run over \<open>B\<close> alone creates it.
\<close>

theorem exception_isolation_counterexample:
  "snd (main example_world ''2.0'' ''A'' (Some [server_a, server_b]) (Some example_env_rules_data))
     = Some FileNotFoundError
   \<and> \<not> version_exists
         (tree (fst (main example_world ''2.0'' ''A'' (Some [server_a, server_b])
                      (Some example_env_rules_data)))) [''b''] ''2.0''
   \<and> version_exists
         (tree (fst (main example_world ''2.0'' ''A'' (Some [server_b])
                      (Some example_env_rules_data)))) [''b''] ''2.0''"
  by code_simp

text \<open>
  Claim C6. When the environment label, as bound after trimming and upper-casing, is not a
  key of the loaded rules, \<open>main\<close> prints the banner and the message about the invalid
  environment and returns: the tree and the clock are as before, and no server was looked at.
\<close>

theorem invalid_environment_aborts:
  assumes "environment \<notin> dom env_rules_data"
  shows "main w nv environment (Some servers) (Some env_rules_data)
           = (w\<lparr>out := out w @ [Banner, InvalidEnvironment]\<rparr>, None)"
  using assms by (simp add: main_def load_json_def print_def domIff)

theorem invalid_environment_aborts_witness:
  "''C'' \<notin> dom example_env_rules_data
   \<and> main example_world ''2.0'' ''C'' (Some example_servers) (Some example_env_rules_data)
       = (example_world\<lparr>out := out example_world @ [Banner, InvalidEnvironment]\<rparr>, None)"
proof -
  have h: "''C'' \<notin> dom example_env_rules_data"
    by (simp add: example_env_rules_data_def)
  show ?thesis
    using h invalid_environment_aborts [OF h, of example_world "''2.0''" example_servers]
    by blast
qed

text \<open>
  Claim C8, as the code has it. The test of line 87 is \<open>os.path.exists\<close>, which follows
  symbolic links. When the root of a server is a directory with an entry named as the
  target version, and that entry is anything but a dangling link, processing the server
  prints that the version exists and returns without an exception: nothing is copied, no
  file is modified and the tree is the same as before.
\<close>

theorem existing_version_skipped:
  assumes "lookup (tree w) (path srv) = Some (Dir t es)"
      and "plain_name nv" and "map_of es nv = Some c" and "\<not> is_broken c"
  shows "process_server w srv nv rules
           = (w\<lparr>out := out w @ [Processing (name srv), VersionExists nv (path srv)]\<rparr>, None)"
proof -
  have root: "stat (tree w) (path srv) = Some (Dir t es)"
    using assms(1) by (simp add: stat_def)
  have "lookup (tree w) (path srv @ [nv]) = Some c"
    using assms(1,3) by (simp add: lookup_append)
  then have entry: "path_exists (tree w) (path srv @ [nv])"
    using assms(4) by (cases c) (simp_all add: path_exists_def stat_def)
  have "resolve (tree w) (path srv) [nv] = Inr (path srv @ [nv])"
    using root assms(2,3) by (simp add: plain_name_def)
  then have "version_exists (tree w) (path srv) nv"
    using entry assms(2) by (simp add: version_exists_def join_plain exists_joined_def)
  then show ?thesis
    using root by (simp add: process_server_def print_def path_exists_def)
qed

theorem existing_version_skipped_witness:
  "lookup (tree example_world) (path server_b)
     = Some (Dir 2
         [(''1.0'', Dir 5
             [(''app.INI'', File 6 (Text ''port=4500\<newline>host=dev'')),
              (''notes.txt'', File 6 (Text ''port=4500'')),
              (''sub'', Dir 6 [(''c.ini'', File 7 (Text ''a=4000 b=6001''))])]),
          (''0.9'', Dir 3 [])])
   \<and> plain_name ''0.9''
   \<and> \<not> is_broken (Dir 3 [])
   \<and> process_server example_world server_b ''0.9'' example_rules
       = (example_world\<lparr>out := out example_world
                                 @ [Processing (name server_b), VersionExists ''0.9'' (path server_b)]\<rparr>,
          None)"
proof -
  have h: "lookup (tree example_world) (path server_b)
     = Some (Dir 2
         [(''1.0'', Dir 5
             [(''app.INI'', File 6 (Text ''port=4500\<newline>host=dev'')),
              (''notes.txt'', File 6 (Text ''port=4500'')),
              (''sub'', Dir 6 [(''c.ini'', File 7 (Text ''a=4000 b=6001''))])]),
          (''0.9'', Dir 3 [])])"
    by (simp add: example_world_def example_tree_def server_b_def)
  have p: "plain_name ''0.9''" by (simp add: plain_name_def)
  have m: "map_of
         [(''1.0'', Dir 5
             [(''app.INI'', File 6 (Text ''port=4500\<newline>host=dev'')),
              (''notes.txt'', File 6 (Text ''port=4500'')),
              (''sub'', Dir 6 [(''c.ini'', File 7 (Text ''a=4000 b=6001''))])]),
          (''0.9'', Dir 3 [])] ''0.9'' = Some (Dir 3 [])"
    by simp
  have b: "\<not> is_broken (Dir 3 [])" by simp
  show ?thesis
    using h p b existing_version_skipped [OF h p m b, of example_rules] by simp
qed

text \<open>
  Claim C8 as stated fails on a dangling link. The root of server \<open>C\<close> lists an entry
  named \<open>2.0\<close>, but what it names does not exist, so the server is not skipped: the
  youngest version is taken as the source of a copy to \<open>2.0\<close>, the directory \<open>2.0\<close>
  cannot be made because the name is taken, and processing ends with \<open>FileExistsError\<close>.
\<close>

theorem dangling_version_counterexample:
  "listdir (tree example_world) (path server_c) = Inr [''1.0'', ''2.0'']
   \<and> snd (process_server example_world server_c ''2.0'' example_rules) = Some FileExistsError
   \<and> out (fst (process_server example_world server_c ''2.0'' example_rules)) = [Processing ''C'']"
  by code_simp

section \<open>Version resolver\<close>







section \<open>Content rewriter: the files that are rewritten\<close>

lemma modify_all_append:
  "modify_all fs now rules (ps @ qs) =
     (case modify_all fs now rules ps of
        (fs', Some e) \<Rightarrow> (fs', Some e)
      | (fs', None) \<Rightarrow> modify_all fs' now rules qs)"
  by (induction ps arbitrary: fs) (auto split: prod.splits option.splits)

lemma update_files_modify_all:
  "update_files fs now rules dir files
     = modify_all fs now rules (map (\<lambda>f. dir @ [f]) (filter is_ini files))"
  by (induction files arbitrary: fs) (auto split: prod.splits option.splits)

lemma update_walk_modify_all:
  "update_walk fs now rules walk = modify_all fs now rules (targets_of walk)"
proof (induction walk arbitrary: fs)
  case Nil
  then show ?case by (simp add: targets_of_def)
next
  case (Cons w walk)
  obtain dir dirs files where w: "w = (dir, dirs, files)" by (cases w) auto
  have t: "targets_of (w # walk)
             = map (\<lambda>f. dir @ [f]) (filter is_ini files) @ targets_of walk"
    using w by (simp add: targets_of_def)
  show ?case
    unfolding t modify_all_append
    using Cons.IH w by (simp add: update_files_modify_all split: prod.splits option.splits)
qed

lemma file_at_update:
  "lookup fs p = Some (File t0 d0)
     \<Longrightarrow> file_at (update_at p (\<lambda>n. File t d) fs) q = (if q = p then Some d else file_at fs q)"
proof (induction p arbitrary: fs q)
  case Nil
  then show ?case by (cases q) (simp_all add: file_at_def)
next
  case (Cons x p)
  from Cons.prems obtain tt es where fs: "fs = Dir tt es" by (cases fs) auto
  from Cons.prems fs obtain c where c: "map_of es x = Some c" "lookup c p = Some (File t0 d0)"
    by (auto split: option.splits)
  show ?case
  proof (cases q)
    case Nil
    then show ?thesis using fs by (simp add: file_at_def)
  next
    case q: (Cons y q')
    show ?thesis
    proof (cases "y = x")
      case True
      have "file_at (update_at (x # p) (\<lambda>n. File t d) fs) q
              = file_at (update_at p (\<lambda>n. File t d) c) q'"
        using fs q True c(1) by (simp add: file_at_def map_of_map_entry)
      moreover have "file_at fs q = file_at c q'"
        using fs q True c(1) by (simp add: file_at_def)
      ultimately show ?thesis using Cons.IH[OF c(2), of q'] q True by simp
    next
      case False
      then show ?thesis using fs q by (simp add: file_at_def map_of_map_entry)
    qed
  qed
qed

lemma modify_effect:
  assumes "modify_ports_and_paths fs now p rules = (fs', err)"
  shows "\<forall>q. q \<noteq> p \<longrightarrow> file_at fs' q = file_at fs q"
    and "\<forall>s. file_at fs p = Some (Text s)
           \<longrightarrow> err = None \<and> file_at fs' p = Some (Text (rewrite_text rules s))"
    and "(\<nexists>s. file_at fs p = Some (Text s)) \<longrightarrow> fs' = fs \<and> err \<noteq> None"
proof -
  consider (decodable) t s where "lookup fs p = Some (File t (Text s))"
    | (other) "\<nexists>t s. lookup fs p = Some (File t (Text s))"
    by blast
  then have "(\<forall>q. q \<noteq> p \<longrightarrow> file_at fs' q = file_at fs q)
      \<and> (\<forall>s. file_at fs p = Some (Text s)
           \<longrightarrow> err = None \<and> file_at fs' p = Some (Text (rewrite_text rules s)))
      \<and> ((\<nexists>s. file_at fs p = Some (Text s)) \<longrightarrow> fs' = fs \<and> err \<noteq> None)"
  proof cases
    case decodable
    have fs': "fs' = update_at p (\<lambda>n. File now (Text (rewrite_text rules s))) fs" and e: "err = None"
      using assms decodable by (simp_all add: modify_ports_and_paths_def)
    have at: "file_at fs p = Some (Text s)" using decodable by (simp add: file_at_def)
    have upd: "file_at fs' q = (if q = p then Some (Text (rewrite_text rules s)) else file_at fs q)"
      for q unfolding fs' by (rule file_at_update[OF decodable])
    show ?thesis using at e upd by simp
  next
    case other
    then have no: "\<nexists>s. file_at fs p = Some (Text s)"
      by (auto simp: file_at_def split: option.splits node.splits)
    have "fs' = fs \<and> err \<noteq> None"
      using assms other
      by (auto simp: modify_ports_and_paths_def split: option.splits node.splits fdata.splits)
    then show ?thesis using no by simp
  qed
  then show "\<forall>q. q \<noteq> p \<longrightarrow> file_at fs' q = file_at fs q"
    and "\<forall>s. file_at fs p = Some (Text s)
           \<longrightarrow> err = None \<and> file_at fs' p = Some (Text (rewrite_text rules s))"
    and "(\<nexists>s. file_at fs p = Some (Text s)) \<longrightarrow> fs' = fs \<and> err \<noteq> None"
    by blast+
qed

lemma modify_all_frame:
  "modify_all fs now rules ps = (fs', err)
     \<Longrightarrow> \<not> (q \<in> set ps \<and> (\<exists>s. file_at fs q = Some (Text s)))
     \<Longrightarrow> file_at fs' q = file_at fs q"
proof (induction ps arbitrary: fs)
  case Nil
  then show ?case by simp
next
  case (Cons p ps)
  obtain fs1 e1 where m: "modify_ports_and_paths fs now p rules = (fs1, e1)"
    by (cases "modify_ports_and_paths fs now p rules") auto
  show ?case
  proof (cases "\<exists>s. file_at fs p = Some (Text s)")
    case False
    then have "fs1 = fs" "e1 \<noteq> None" using modify_effect(3)[OF m] by auto
    then have "fs' = fs" using Cons.prems(1) m by auto
    then show ?thesis by simp
  next
    case True
    then have e1: "e1 = None" using modify_effect(2)[OF m] by auto
    then have rest: "modify_all fs1 now rules ps = (fs', err)" using Cons.prems(1) m by simp
    have qp: "q \<noteq> p" using True Cons.prems(2) by auto
    then have same: "file_at fs1 q = file_at fs q" using modify_effect(1)[OF m] by simp
    then have "\<not> (q \<in> set ps \<and> (\<exists>s. file_at fs1 q = Some (Text s)))"
      using Cons.prems(2) by auto
    then show ?thesis using Cons.IH[OF rest] same by simp
  qed
qed

lemma modify_all_once:
  "distinct ps \<Longrightarrow> modify_all fs now rules ps = (fs', err) \<Longrightarrow> file_at fs q = Some (Text s)
     \<Longrightarrow> file_at fs' q = Some (Text s) \<or> file_at fs' q = Some (Text (rewrite_text rules s))"
proof (induction ps arbitrary: fs)
  case Nil
  then show ?case by simp
next
  case (Cons p ps)
  obtain fs1 e1 where m: "modify_ports_and_paths fs now p rules = (fs1, e1)"
    by (cases "modify_ports_and_paths fs now p rules") auto
  have pn: "p \<notin> set ps" and d: "distinct ps" using Cons.prems(1) by auto
  show ?case
  proof (cases "e1")
    case (Some e)
    then have stop: "fs' = fs1" using Cons.prems(2) m by simp
    have "\<not> (\<exists>s. file_at fs p = Some (Text s))" using modify_effect(2)[OF m] Some by auto
    then have "fs1 = fs" using modify_effect(3)[OF m] by simp
    then show ?thesis using stop Cons.prems(3) by simp
  next
    case None
    then have rest: "modify_all fs1 now rules ps = (fs', err)" using Cons.prems(2) m by simp
    show ?thesis
    proof (cases "q = p")
      case True
      have "file_at fs1 q = Some (Text (rewrite_text rules s))"
        using modify_effect(2)[OF m] Cons.prems(3) True by simp
      moreover have "file_at fs' q = file_at fs1 q"
        using modify_all_frame[OF rest, of q] pn True by simp
      ultimately show ?thesis by simp
    next
      case False
      then have "file_at fs1 q = Some (Text s)"
        using modify_effect(1)[OF m] Cons.prems(3) by simp
      then show ?thesis using Cons.IH[OF d rest] by simp
    qed
  qed
qed

lemma modify_all_complete:
  "distinct ps \<Longrightarrow> \<forall>p\<in>set ps. \<exists>s. file_at fs p = Some (Text s)
     \<Longrightarrow> modify_all fs now rules ps = (fs', err)
     \<Longrightarrow> err = None
         \<and> (\<forall>p\<in>set ps. \<forall>s. file_at fs p = Some (Text s)
               \<longrightarrow> file_at fs' p = Some (Text (rewrite_text rules s)))"
proof (induction ps arbitrary: fs)
  case Nil
  then show ?case by simp
next
  case (Cons p ps)
  obtain fs1 e1 where m: "modify_ports_and_paths fs now p rules = (fs1, e1)"
    by (cases "modify_ports_and_paths fs now p rules") auto
  obtain sp where sp: "file_at fs p = Some (Text sp)" using Cons.prems(2) by auto
  have e1: "e1 = None" and p1: "file_at fs1 p = Some (Text (rewrite_text rules sp))"
    using modify_effect(2)[OF m] sp by auto
  have rest: "modify_all fs1 now rules ps = (fs', err)" using Cons.prems(3) m e1 by simp
  have pn: "p \<notin> set ps" and d: "distinct ps" using Cons.prems(1) by auto
  have same: "file_at fs1 q = file_at fs q" if "q \<in> set ps" for q
    using modify_effect(1)[OF m] pn that by auto
  have all_text: "\<forall>q\<in>set ps. \<exists>s. file_at fs1 q = Some (Text s)"
    using Cons.prems(2) same by auto
  from Cons.IH[OF d all_text rest]
  have err: "err = None"
    and ih: "\<forall>q\<in>set ps. \<forall>s. file_at fs1 q = Some (Text s)
               \<longrightarrow> file_at fs' q = Some (Text (rewrite_text rules s))"
    by auto
  have "file_at fs' p = file_at fs1 p"
    using modify_all_frame[OF rest, of p] pn by simp
  then have "file_at fs' p = Some (Text (rewrite_text rules sp))" using p1 by simp
  then show ?case using err ih same sp by auto
qed

lemma targets_of_Cons:
  "targets_of ((dir, dirs, files) # walk)
     = map (\<lambda>f. dir @ [f]) (filter is_ini files) @ targets_of walk"
  by (simp add: targets_of_def)

lemma targets_of_concat: "targets_of (concat ws) = concat (map targets_of ws)"
  by (induction ws) (simp_all add: targets_of_def)

lemma targets_of_Dir:
  "targets_of (os_walk dir (Dir t es))
     = map (\<lambda>f. dir @ [f])
         (filter is_ini (map fst (filter (\<lambda>e. \<not> is_dir_node (snd e)) es)))
       @ concat (map (\<lambda>e. targets_of (os_walk (dir @ [fst e]) (snd e)))
                   (filter (\<lambda>e. is_dir_node (snd e)) es))"
  by (simp add: targets_of_Cons targets_of_concat comp_def)

lemma targets_under:
  "p \<in> set (targets_of (os_walk dir n)) \<Longrightarrow> strict_prefix dir p \<and> is_ini (last p)"
proof (induction dir n arbitrary: p rule: os_walk.induct)
  case (1 dir t d)
  then show ?case by (simp add: targets_of_def)
next
  case (2 dir t)
  then show ?case by (simp add: targets_of_def)
next
  case (3 dir t es)
  from "3.prems" consider
      f where "p = dir @ [f]" "is_ini f"
    | e where "e \<in> set es" "is_dir_node (snd e)"
              "p \<in> set (targets_of (os_walk (dir @ [fst e]) (snd e)))"
    unfolding targets_of_Dir by auto
  then show ?case
  proof cases
    case 1
    then show ?thesis by (simp add: strict_prefix_def)
  next
    case 2
    then have "strict_prefix (dir @ [fst e]) p \<and> is_ini (last p)"
      using "3.IH"[of e p] by simp
    then show ?thesis
      by (auto simp: strict_prefix_def prefix_def)
  qed
qed

lemma wf_map_of:
  "distinct (map fst es) \<Longrightarrow> e \<in> set es \<Longrightarrow> map_of es (fst e) = Some (snd e)"
  by (cases e) (simp add: map_of_is_SomeI)

lemma targets_are_entries:
  "wf_node n \<Longrightarrow> p \<in> set (targets_of (os_walk dir n))
     \<Longrightarrow> \<exists>rel c. p = dir @ rel \<and> lookup n rel = Some c \<and> \<not> is_dir_node c"
proof (induction dir n arbitrary: p rule: os_walk.induct)
  case (1 dir t d)
  then show ?case by (simp add: targets_of_def)
next
  case (2 dir t)
  then show ?case by (simp add: targets_of_def)
next
  case (3 dir t es)
  have dist: "distinct (map fst es)" using "3.prems"(1) by simp
  from "3.prems"(2) consider
      e where "e \<in> set es" "\<not> is_dir_node (snd e)" "p = dir @ [fst e]"
    | e where "e \<in> set es" "is_dir_node (snd e)"
              "p \<in> set (targets_of (os_walk (dir @ [fst e]) (snd e)))"
    unfolding targets_of_Dir by auto
  then show ?case
  proof cases
    case 1
    have "lookup (Dir t es) [fst e] = Some (snd e)"
      using wf_map_of[OF dist 1(1)] by simp
    then show ?thesis using 1(2,3) by blast
  next
    case 2
    have "wf_node (snd e)" using "3.prems"(1) 2(1) by simp
    then obtain rel c where r: "p = (dir @ [fst e]) @ rel" "lookup (snd e) rel = Some c"
        "\<not> is_dir_node c"
      using "3.IH"[of e p] 2 by auto
    have "lookup (Dir t es) (fst e # rel) = Some c"
      using wf_map_of[OF dist 2(1)] r(2) by simp
    moreover have "p = dir @ (fst e # rel)" using r(1) by simp
    ultimately show ?thesis using r(3) by blast
  qed
qed

lemma targets_complete:
  "lookup n rel = Some (File t0 d0) \<Longrightarrow> rel \<noteq> [] \<Longrightarrow> is_ini (last rel)
     \<Longrightarrow> dir @ rel \<in> set (targets_of (os_walk dir n))"
proof (induction dir n arbitrary: rel rule: os_walk.induct)
  case (1 dir t d)
  then show ?case by (cases rel) simp_all
next
  case (2 dir t)
  then show ?case by (cases rel) simp_all
next
  case (3 dir t es)
  obtain k rel' where rel: "rel = k # rel'" using "3.prems"(2) by (cases rel) auto
  obtain c where c: "map_of es k = Some c" "lookup c rel' = Some (File t0 d0)"
    using "3.prems"(1) rel by (auto split: option.splits)
  have mem: "(k, c) \<in> set es" using c(1) by (rule map_of_SomeD)
  show ?case
  proof (cases "rel' = []")
    case True
    then have "c = File t0 d0" using c(2) by simp
    then have "k \<in> set (filter is_ini (map fst (filter (\<lambda>e. \<not> is_dir_node (snd e)) es)))"
      using mem "3.prems"(3) rel True by force
    then show ?thesis unfolding targets_of_Dir using rel True by auto
  next
    case False
    then have dirc: "is_dir_node c" using c(2) by (cases c; cases rel') auto
    have "(dir @ [fst (k, c)]) @ rel' \<in> set (targets_of (os_walk (dir @ [fst (k, c)]) (snd (k, c))))"
      using "3.IH"[of "(k, c)" rel'] mem dirc c(2) False "3.prems"(3) rel by simp
    then show ?thesis unfolding targets_of_Dir using rel mem dirc by force
  qed
qed

lemma distinct_concat_by_name:
  assumes "distinct (map fst es)"
    and "\<And>e. e \<in> set es \<Longrightarrow> distinct (g e)"
    and "\<And>e e'. e \<in> set es \<Longrightarrow> e' \<in> set es \<Longrightarrow> fst e \<noteq> fst e' \<Longrightarrow> set (g e) \<inter> set (g e') = {}"
  shows "distinct (concat (map g es))"
  using assms
proof (induction es)
  case Nil
  then show ?case by simp
next
  case (Cons e es)
  have "set (g e) \<inter> set (g e') = {}" if "e' \<in> set es" for e'
  proof -
    have "fst e \<noteq> fst e'" using Cons.prems(1) that by auto
    then show ?thesis using Cons.prems(3)[of e e'] that by simp
  qed
  moreover have "distinct (concat (map g es))"
    using Cons.IH Cons.prems by simp
  ultimately show ?case using Cons.prems(2)[of e] by auto
qed

lemma targets_distinct:
  "wf_node n \<Longrightarrow> distinct (targets_of (os_walk dir n))"
proof (induction dir n rule: os_walk.induct)
  case (1 dir t d)
  then show ?case by (simp add: targets_of_def)
next
  case (2 dir t)
  then show ?case by (simp add: targets_of_def)
next
  case (3 dir t es)
  let ?files = "filter (\<lambda>e. \<not> is_dir_node (snd e)) es"
  let ?dirs = "filter (\<lambda>e. is_dir_node (snd e)) es"
  let ?A = "map (\<lambda>f. dir @ [f]) (filter is_ini (map fst ?files))"
  let ?g = "\<lambda>e. targets_of (os_walk (dir @ [fst e]) (snd e))"
  have dist: "distinct (map fst es)" using "3.prems" by simp
  have "distinct (map fst ?files)" using dist by (rule distinct_map_filter)
  then have "distinct (filter is_ini (map fst ?files))" by simp
  then have A: "distinct ?A" by (simp add: distinct_map inj_on_def)
  have B: "distinct (concat (map ?g ?dirs))"
  proof (rule distinct_concat_by_name)
    show "distinct (map fst ?dirs)" using dist by (rule distinct_map_filter)
  next
    fix e assume "e \<in> set ?dirs"
    then show "distinct (?g e)" using "3.IH"[of e] "3.prems" by simp
  next
    fix e e' assume "e \<in> set ?dirs" "e' \<in> set ?dirs" and ne: "fst e \<noteq> fst e'"
    show "set (?g e) \<inter> set (?g e') = {}"
    proof (rule ccontr)
      assume "set (?g e) \<inter> set (?g e') \<noteq> {}"
      then obtain p where "p \<in> set (?g e)" "p \<in> set (?g e')" by blast
      then have "strict_prefix (dir @ [fst e]) p" "strict_prefix (dir @ [fst e']) p"
        using targets_under by blast+
      then show False using ne by (auto simp: strict_prefix_def prefix_def append_eq_append_conv2
                                        Cons_eq_append_conv)
    qed
  qed
  have AB: "set ?A \<inter> set (concat (map ?g ?dirs)) = {}"
  proof (rule ccontr)
    assume "set ?A \<inter> set (concat (map ?g ?dirs)) \<noteq> {}"
    then obtain p where pa: "p \<in> set ?A" and pb: "p \<in> set (concat (map ?g ?dirs))" by blast
    from pa have la: "length p = Suc (length dir)" by auto
    from pb obtain e where "p \<in> set (?g e)" by auto
    then have "strict_prefix (dir @ [fst e]) p" using targets_under by blast
    then have "Suc (length dir) < length p"
      by (auto simp: strict_prefix_def prefix_def)
    then show False using la by simp
  qed
  show ?case unfolding targets_of_Dir using A B AB by simp
qed

lemma targets_under_version:
  assumes "lookup fs version_path = Some (Dir t es)" and "wf_node (Dir t es)"
      and "p \<in> set (targets_of (os_walk version_path (Dir t es)))"
  shows "ini_under version_path p"
    and "\<exists>c. lookup fs p = Some c \<and> \<not> is_dir_node c"
proof -
  show "ini_under version_path p"
    using targets_under[OF assms(3)] by (simp add: ini_under_def)
  obtain rel c where r: "p = version_path @ rel" "lookup (Dir t es) rel = Some c"
      "\<not> is_dir_node c"
    using targets_are_entries[OF assms(2,3)] by blast
  have "lookup fs p = Some c" using r(1,2) assms(1) by (simp add: lookup_append)
  then show "\<exists>c. lookup fs p = Some c \<and> \<not> is_dir_node c" using r(3) by blast
qed

lemma ini_file_is_target:
  assumes "lookup fs version_path = Some (Dir t es)"
      and "ini_under version_path q" and "file_at fs q = Some d"
  shows "q \<in> set (targets_of (os_walk version_path (Dir t es)))"
proof -
  obtain rel where rel: "q = version_path @ rel" "rel \<noteq> []"
    using assms(2) by (auto simp: ini_under_def strict_prefix_def prefix_def)
  obtain t0 where "lookup fs q = Some (File t0 d)"
    using assms(3) by (auto simp: file_at_def split: option.splits node.splits)
  then have f: "lookup (Dir t es) rel = Some (File t0 d)"
    using rel(1) assms(1) by (simp add: lookup_append)
  have "is_ini (last rel)" using assms(2) rel by (simp add: ini_under_def)
  then show ?thesis using targets_complete[OF f rel(2)] rel(1) by simp
qed

lemma readable_tree_lookup:
  "readable_tree n \<Longrightarrow> lookup n rel = Some c \<Longrightarrow> readable_tree c"
proof (induction n rel rule: lookup.induct)
  case (4 t es x p)
  then obtain k where k: "map_of es x = Some k" "lookup k p = Some c"
    by (auto split: option.splits)
  then have "(x, k) \<in> set es" by (simp add: map_of_SomeD)
  then have "readable_tree k" using "4.prems"(1) by (auto simp: list_all_iff)
  then show ?case using "4.IH" k by simp
qed simp_all

lemma readable_tree_below:
  assumes "lookup fs version_path = Some n" and "readable_tree n"
  shows "\<forall>q. ini_under version_path q \<longrightarrow> \<not> unreadable fs q"
proof (intro allI impI)
  fix q assume "ini_under version_path q"
  then obtain rel where rel: "q = version_path @ rel"
    by (auto simp: ini_under_def strict_prefix_def prefix_def)
  show "\<not> unreadable fs q"
  proof (cases "lookup n rel")
    case None
    then show ?thesis using rel assms(1) by (simp add: unreadable_def lookup_append)
  next
    case (Some c)
    then have "readable_tree c" using readable_tree_lookup[OF assms(2)] by blast
    moreover have "lookup fs q = Some c" using Some rel assms(1) by (simp add: lookup_append)
    ultimately show ?thesis
      by (cases c) (auto simp: unreadable_def split: fdata.splits)
  qed
qed

text \<open>
  Claim C9, as the code has it. The rewriter runs on a version folder that is a well-formed
  directory. Whatever happens, the data of every file that is not a text file with the INI
  extension below the folder is as before, inside and outside the folder, and a text file
  is either as before or rewritten once. When no entry with the INI extension below the
  folder is unreadable, the rewriter raises nothing and every file with the INI extension
  below the folder holds its rewritten text.
\<close>

theorem ini_files_rewritten:
  assumes "lookup fs version_path = Some (Dir t es)" and "wf_node (Dir t es)"
      and "update_environment_files fs now version_path rules = (fs', err)"
  shows "(\<forall>q. \<not> (ini_under version_path q \<and> (\<exists>s. file_at fs q = Some (Text s)))
              \<longrightarrow> file_at fs' q = file_at fs q)
       \<and> (\<forall>q s. file_at fs q = Some (Text s)
              \<longrightarrow> file_at fs' q = Some (Text s)
                \<or> file_at fs' q = Some (Text (rewrite_text rules s)))
       \<and> ((\<forall>q. ini_under version_path q \<longrightarrow> \<not> unreadable fs q)
              \<longrightarrow> err = None
                \<and> (\<forall>q s. ini_under version_path q \<and> file_at fs q = Some (Text s)
                       \<longrightarrow> file_at fs' q = Some (Text (rewrite_text rules s))))"
proof -
  let ?T = "targets_of (os_walk version_path (Dir t es))"
  have run: "modify_all fs now rules ?T = (fs', err)"
    using assms(1,3) by (simp add: update_environment_files_def stat_def update_walk_modify_all)
  have dist: "distinct ?T" using targets_distinct[OF assms(2)] .
  have frame: "\<forall>q. \<not> (ini_under version_path q \<and> (\<exists>s. file_at fs q = Some (Text s)))
              \<longrightarrow> file_at fs' q = file_at fs q"
  proof (intro allI impI)
    fix q assume a: "\<not> (ini_under version_path q \<and> (\<exists>s. file_at fs q = Some (Text s)))"
    have "\<not> (q \<in> set ?T \<and> (\<exists>s. file_at fs q = Some (Text s)))"
      using a targets_under_version(1)[OF assms(1,2)] by blast
    then show "file_at fs' q = file_at fs q" using modify_all_frame[OF run] by blast
  qed
  have once: "\<forall>q s. file_at fs q = Some (Text s)
              \<longrightarrow> file_at fs' q = Some (Text s)
                \<or> file_at fs' q = Some (Text (rewrite_text rules s))"
    using modify_all_once[OF dist run] by blast
  have effect: "err = None
                \<and> (\<forall>q s. ini_under version_path q \<and> file_at fs q = Some (Text s)
                       \<longrightarrow> file_at fs' q = Some (Text (rewrite_text rules s)))"
    if readable: "\<forall>q. ini_under version_path q \<longrightarrow> \<not> unreadable fs q"
  proof -
    have all_text: "\<forall>p\<in>set ?T. \<exists>s. file_at fs p = Some (Text s)"
    proof
      fix p assume p: "p \<in> set ?T"
      obtain c where c: "lookup fs p = Some c" "\<not> is_dir_node c"
        using targets_under_version(2)[OF assms(1,2) p] by blast
      have "\<not> unreadable fs p"
        using readable targets_under_version(1)[OF assms(1,2) p] by blast
      then show "\<exists>s. file_at fs p = Some (Text s)"
        using c by (cases c; auto simp: unreadable_def file_at_def split: fdata.splits)
    qed
    from modify_all_complete[OF dist all_text run]
    have e: "err = None"
      and rewritten: "\<forall>p\<in>set ?T. \<forall>s. file_at fs p = Some (Text s)
                   \<longrightarrow> file_at fs' p = Some (Text (rewrite_text rules s))"
      by blast+
    have "file_at fs' q = Some (Text (rewrite_text rules s))"
      if "ini_under version_path q" "file_at fs q = Some (Text s)" for q s
      using rewritten ini_file_is_target[OF assms(1) that] that(2) by blast
    then show ?thesis using e by blast
  qed
  show ?thesis using frame once effect by blast
qed

theorem ini_files_rewritten_witness:
  "lookup example_tree [''b'', ''1.0'']
     = Some (Dir 5
         [(''app.INI'', File 6 (Text ''port=4500\<newline>host=dev'')),
          (''notes.txt'', File 6 (Text ''port=4500'')),
          (''sub'', Dir 6 [(''c.ini'', File 7 (Text ''a=4000 b=6001''))])])
   \<and> wf_node (Dir 5
         [(''app.INI'', File 6 (Text ''port=4500\<newline>host=dev'')),
          (''notes.txt'', File 6 (Text ''port=4500'')),
          (''sub'', Dir 6 [(''c.ini'', File 7 (Text ''a=4000 b=6001''))])])
   \<and> snd (update_environment_files example_tree 10 [''b'', ''1.0''] example_rules) = None
   \<and> file_at (fst (update_environment_files example_tree 10 [''b'', ''1.0''] example_rules))
        [''b'', ''1.0'', ''notes.txt'']
       = Some (Text ''port=4500'')
   \<and> file_at (fst (update_environment_files example_tree 10 [''b'', ''1.0''] example_rules))
        [''b'', ''1.0'', ''app.INI'']
       = Some (Text (rewrite_text example_rules ''port=4500\<newline>host=dev''))
   \<and> file_at (fst (update_environment_files example_tree 10 [''b'', ''1.0''] example_rules))
        [''b'', ''1.0'', ''sub'', ''c.ini'']
       = Some (Text (rewrite_text example_rules ''a=4000 b=6001''))
   \<and> file_at (fst (update_environment_files example_tree 10 [''b'', ''1.0''] example_rules))
        [''c'', ''1.0'', ''app.ini'']
       = Some (Text ''port=4500'')"
proof -
  let ?D = "Dir 5
         [(''app.INI'', File 6 (Text ''port=4500\<newline>host=dev'')),
          (''notes.txt'', File 6 (Text ''port=4500'')),
          (''sub'', Dir 6 [(''c.ini'', File 7 (Text ''a=4000 b=6001''))])]"
  let ?vp = "[''b'', ''1.0'']"
  let ?r = "update_environment_files example_tree 10 ?vp example_rules"
  have h1: "lookup example_tree ?vp = Some ?D" by (simp add: example_tree_def)
  have h2: "wf_node ?D" by simp
  have h3: "?r = (fst ?r, snd ?r)" by simp
  have rd: "\<forall>q. ini_under ?vp q \<longrightarrow> \<not> unreadable example_tree q"
    by (rule readable_tree_below[OF h1]) simp
  note inst = ini_files_rewritten[OF h1 h2 h3]
  have frame: "\<not> (ini_under ?vp q \<and> (\<exists>s. file_at example_tree q = Some (Text s)))
                 \<Longrightarrow> file_at (fst ?r) q = file_at example_tree q" for q
    using inst by blast
  have effect: "snd ?r = None"
    "ini_under ?vp q \<Longrightarrow> file_at example_tree q = Some (Text s)
       \<Longrightarrow> file_at (fst ?r) q = Some (Text (rewrite_text example_rules s))" for q s
    using inst rd by blast+
  have is_notes: "\<not> ini_under ?vp [''b'', ''1.0'', ''notes.txt'']"
    by code_simp
  have other: "\<not> ini_under ?vp [''c'', ''1.0'', ''app.ini'']"
    by (simp add: ini_under_def)
  have app: "ini_under ?vp [''b'', ''1.0'', ''app.INI'']"
    by code_simp
  have sub: "ini_under ?vp [''b'', ''1.0'', ''sub'', ''c.ini'']"
    by code_simp
  have f1: "file_at example_tree [''b'', ''1.0'', ''notes.txt''] = Some (Text ''port=4500'')"
    by (simp add: file_at_def example_tree_def)
  have f2: "file_at example_tree [''c'', ''1.0'', ''app.ini''] = Some (Text ''port=4500'')"
    by (simp add: file_at_def example_tree_def)
  have f3: "file_at example_tree [''b'', ''1.0'', ''app.INI'']
              = Some (Text ''port=4500\<newline>host=dev'')"
    by (simp add: file_at_def example_tree_def)
  have f4: "file_at example_tree [''b'', ''1.0'', ''sub'', ''c.ini'']
              = Some (Text ''a=4000 b=6001'')"
    by (simp add: file_at_def example_tree_def)
  show ?thesis
    using h1 h2 effect(1) frame[of "[''b'', ''1.0'', ''notes.txt'']"] is_notes f1
          frame[of "[''c'', ''1.0'', ''app.ini'']"] other f2
          effect(2)[OF app f3] effect(2)[OF sub f4]
    by simp
qed

text \<open>
  Claim C9 as stated fails when a file with the INI extension is not UTF-8. In the folder
  \<open>v\<close> below, \<open>bad.ini\<close> holds the byte \<open>0xFF\<close>; reading it raises, the walk ends there,
  and \<open>sub/b.ini\<close>, which the walk reaches later, keeps its text, although the rules
  would change it.
\<close>

theorem undecodable_ini_counterexample:
  "update_environment_files undecodable_tree 10 [''v''] example_rules
     = (undecodable_tree, Some UnicodeDecodeError)
   \<and> ini_under [''v''] [''v'', ''sub'', ''b.ini'']
   \<and> file_at undecodable_tree [''v'', ''sub'', ''b.ini''] = Some (Text ''port=4500'')
   \<and> rewrite_text example_rules ''port=4500'' = ''port=4600''"
  by code_simp


section \<open>Candidates of the port renumbering\<close>

lemma match_digits_run:
  assumes "\<forall>c\<in>set r. is_digit c" and "rest = [] \<or> \<not> is_digit (hd rest)"
  shows "match_digits (r @ rest) = take 5 r"
proof -
  have "takeWhile is_digit (take (5 - length r) rest) = []"
    using assms(2) by (cases rest; cases "5 - length r") auto
  moreover have "takeWhile is_digit (take 5 r @ ys) = take 5 r @ takeWhile is_digit ys" for ys
    using assms(1) by (intro takeWhile_append2) (auto dest: in_set_takeD)
  ultimately show ?thesis by (simp add: match_digits_def)
qed

lemma chunks45_short: "length r < 4 \<Longrightarrow> chunks45 r = []"
  by (subst chunks45.simps) simp

lemma chunks45_four: "length r = 4 \<Longrightarrow> chunks45 r = [r]"
  by (subst chunks45.simps) simp

lemma chunks45_long: "5 \<le> length r \<Longrightarrow> chunks45 r = take 5 r # chunks45 (drop 5 r)"
  by (subst chunks45.simps) simp

lemma findall_ports_step:
  "s \<noteq> [] \<Longrightarrow> findall_ports s =
     (if 4 \<le> length (match_digits s)
      then match_digits s # findall_ports (drop (length (match_digits s)) s)
      else findall_ports (tl s))"
  by (cases s) simp_all

lemma findall_ports_run:
  "\<forall>c\<in>set r. is_digit c \<Longrightarrow> rest = [] \<or> \<not> is_digit (hd rest)
     \<Longrightarrow> findall_ports (r @ rest) = chunks45 r @ findall_ports rest"
proof (induction r rule: length_induct)
  case (1 r)
  show ?case
  proof (cases "r = []")
    case True
    then show ?thesis by (simp add: chunks45_short)
  next
    case False
    have md: "match_digits (r @ rest) = take 5 r"
      using match_digits_run[OF "1.prems"] .
    have step: "findall_ports (r @ rest) =
       (if 4 \<le> length (take 5 r)
        then take 5 r # findall_ports (drop (length (take 5 r)) (r @ rest))
        else findall_ports (tl (r @ rest)))"
      using findall_ports_step[of "r @ rest"] False by (simp only: md) simp
    consider "length r < 4" | "length r = 4" | "5 \<le> length r" by linarith
    then show ?thesis
    proof cases
      case 1
      have "\<forall>c\<in>set (tl r). is_digit c" using "1.prems"(1) False by (auto dest: list.set_sel(2))
      moreover have "length (tl r) < length r" using False by simp
      ultimately have "findall_ports (tl r @ rest) = chunks45 (tl r) @ findall_ports rest"
        using "1.IH" "1.prems"(2) by blast
      moreover have "chunks45 (tl r) = []" using 1 by (simp add: chunks45_short)
      moreover have "tl (r @ rest) = tl r @ rest" using False by simp
      moreover have "\<not> 4 \<le> length (take 5 r)" using 1 by simp
      ultimately show ?thesis using 1 step by (simp only: chunks45_short if_False append_Nil)
    next
      case 2
      then have "take 5 r = r" "drop (length (take 5 r)) (r @ rest) = rest" by simp_all
      then show ?thesis using 2 step by (simp add: chunks45_four)
    next
      case 3
      have "\<forall>c\<in>set (drop 5 r). is_digit c" using "1.prems"(1) by (auto dest: in_set_dropD)
      moreover have "length (drop 5 r) < length r" using 3 by simp
      ultimately have "findall_ports (drop 5 r @ rest) = chunks45 (drop 5 r) @ findall_ports rest"
        using "1.IH" "1.prems"(2) by blast
      moreover have "drop (length (take 5 r)) (r @ rest) = drop 5 r @ rest" using 3 by simp
      moreover have "4 \<le> length (take 5 r)" using 3 by simp
      ultimately have "findall_ports (r @ rest) = take 5 r # chunks45 (drop 5 r) @ findall_ports rest"
        using step by (simp only: if_True)
      then show ?thesis using chunks45_long[OF 3] by simp
    qed
  qed
qed

lemma findall_ports_nondigit: "\<not> is_digit c \<Longrightarrow> findall_ports (c # cs) = findall_ports cs"
  by (simp add: match_digits_def)

lemma findall_ports_concat_chunks:
  "findall_ports line = concat (map chunks45 (digit_runs line))"
proof (induction line rule: digit_runs.induct)
  case 1
  then show ?case by simp
next
  case (2 c cs)
  show ?case
  proof (cases "is_digit c")
    case True
    let ?r = "takeWhile is_digit (c # cs)" and ?rest = "dropWhile is_digit (c # cs)"
    have "\<forall>x\<in>set ?r. is_digit x" by (auto dest: set_takeWhileD)
    moreover have "?rest = [] \<or> \<not> is_digit (hd ?rest)" using hd_dropWhile by blast
    ultimately have "findall_ports (?r @ ?rest) = chunks45 ?r @ findall_ports ?rest"
      by (rule findall_ports_run)
    then have "findall_ports (c # cs) = chunks45 ?r @ findall_ports ?rest"
      by (simp only: takeWhile_dropWhile_id)
    then show ?thesis using True 2(1) by (simp del: findall_ports.simps)
  next
    case False
    then show ?thesis using 2(2) by (simp add: findall_ports_nondigit del: findall_ports.simps)
  qed
qed

lemma chunks45_five: "length r = 5 \<Longrightarrow> chunks45 r = [r]"
  by (simp add: chunks45_long chunks45_short)

lemma chunks45_short_runs:
  "\<forall>r\<in>set rs. length r \<le> 5
     \<Longrightarrow> concat (map chunks45 rs) = filter (\<lambda>r. length r = 4 \<or> length r = 5) rs"
proof (induction rs)
  case Nil
  then show ?case by simp
next
  case (Cons r rs)
  then have "length r < 4 \<or> length r = 4 \<or> length r = 5" by auto
  then have "chunks45 r = (if length r = 4 \<or> length r = 5 then [r] else [])"
    by (auto simp: chunks45_short chunks45_four chunks45_five)
  then show ?case using Cons by simp
qed

text \<open>
  Claim C3, as the code has it. The candidates are the pieces that the greedy scan cuts
  out of the maximal digit runs of the line: every run is cut from its left end into pieces
  of five digits, followed by one piece of four digits when exactly four remain. So a run
  of four or five digits is one candidate as a whole, a run of fewer than four digits gives
  none, and a run of six or more digits gives its leading pieces as candidates. In a line
  without a run of more than five digits the candidates are exactly the maximal runs of
  four or five digits.
\<close>

theorem findall_ports_chunks:
  "findall_ports line = concat (map chunks45 (digit_runs line))
   \<and> ((\<forall>r\<in>set (digit_runs line). length r \<le> 5) \<longrightarrow> findall_ports line = maximal_runs_4_5 line)"
  using chunks45_short_runs [of "digit_runs line"]
  by (simp add: findall_ports_concat_chunks maximal_runs_4_5_def)

theorem findall_ports_chunks_witness:
  "findall_ports ''id=0500012 p=4500'' = concat (map chunks45 (digit_runs ''id=0500012 p=4500''))
   \<and> findall_ports ''id=0500012 p=4500'' = [''05000'', ''4500'']
   \<and> digit_runs ''p=4500 q=123'' = [''4500'', ''123'']
   \<and> findall_ports ''p=4500 q=123'' = maximal_runs_4_5 ''p=4500 q=123''"
proof -
  have d: "digit_runs ''p=4500 q=123'' = [''4500'', ''123'']"
    by code_simp
  then have h: "\<forall>r\<in>set (digit_runs ''p=4500 q=123''). length r \<le> 5"
    by simp
  have v: "findall_ports ''id=0500012 p=4500'' = [''05000'', ''4500'']"
    by code_simp
  show ?thesis
    using d h v findall_ports_chunks [of "''id=0500012 p=4500''"]
      findall_ports_chunks [of "''p=4500 q=123''"]
    by blast
qed

text \<open>
  Claim C3 as stated fails on a run of seven digits: the scan takes its first five digits
  as a candidate, while no maximal run of the line is four or five digits long.
\<close>

theorem maximal_runs_counterexample:
  "findall_ports ''id=0500012'' = [''05000''] \<and> maximal_runs_4_5 ''id=0500012'' = []"
  by code_simp

section \<open>String substitution\<close>

lemma substitute_append:
  "substitute (ps @ qs) line = substitute qs (substitute ps line)"
  by (induction ps line rule: substitute.induct) simp_all

text \<open>
  Claim C4. The pairs are applied one after another in the order of the list: applying a
  list of pairs extended by one more pair is applying the list and then replacing with the
  last pair. With the pairs \<open>dev\<close> to \<open>prod-A\<close> and then \<open>A\<close> to \<open>B\<close>, the \<open>A\<close> that the
  first pair wrote is rewritten by the second.
\<close>

theorem substitute_sequential:
  "substitute (ps @ [(old, new)]) line = py_replace (substitute ps line) old new
   \<and> rewrite_line \<lparr>replace = [(''dev'', ''prod-A''), (''A'', ''B'')], port_offset = 0\<rparr> ''env=dev''
       = ''env=prod-B''"
proof
  show "substitute (ps @ [(old, new)]) line = py_replace (substitute ps line) old new"
    by (simp add: substitute_append)
  show "rewrite_line \<lparr>replace = [(''dev'', ''prod-A''), (''A'', ''B'')], port_offset = 0\<rparr> ''env=dev''
       = ''env=prod-B''"
    by code_simp
qed

theorem substitute_sequential_witness:
  "substitute ([(''dev'', ''prod-A'')] @ [(''A'', ''B'')]) ''env=dev''
     = py_replace (substitute [(''dev'', ''prod-A'')] ''env=dev'') ''A'' ''B''"
  using substitute_sequential [of "[(''dev'', ''prod-A'')]" "''A''" "''B''" "''env=dev''"]
  by blast

section \<open>Literal replacement and the port renumbering\<close>



























section \<open>Rewriting a rewritten line\<close>


















end
